theory Spec2Isabelle
  imports Complex_Main "HOL-Library.Sublist"
begin

section \<open>The tick, scale and tooltip arithmetic of utils.js\<close>

text \<open>
  A shallow embedding of the numeric functions of \<^verbatim>\<open>src/utils.js\<close>.
  JavaScript numbers that hold array lengths, indices and divisors are natural numbers;
  pixel coordinates and data values are real numbers, so the rounding of IEEE doubles is
  not part of the model, except for the logarithm of \<^verbatim>\<open>getYMax\<close>, where it
  decides the power of ten of the result. Strings are HOL strings. A loop that may run
  forever returns an option, with \<open>None\<close> for a run that never returns; the
  JavaScript value \<^verbatim>\<open>undefined\<close> is \<open>None\<close> of an inner option.
\<close>

subsection \<open>Constants\<close>

definition dayTicksThreshold :: nat where "dayTicksThreshold = 63"
definition weekTicksThreshold :: nat where "weekTicksThreshold = 9"
definition smallBreak :: real where "smallBreak = 783"
definition mediumBreak :: real where "mediumBreak = 1130"
definition wideBreak :: real where "wideBreak = 1365"
definition smallPoints :: nat where "smallPoints = 7"
definition mediumPoints :: nat where "mediumPoints = 12"
definition largePoints :: nat where "largePoints = 16"
definition mostPoints :: nat where "mostPoints = 31"

subsection \<open>calculateMaxXTicks\<close>

text \<open>
  The chain of \<^verbatim>\<open>if\<close>/\<^verbatim>\<open>else if\<close> of the source, with its
  final \<^verbatim>\<open>return largePoints\<close> for a mode that is neither of the two names.
\<close>

definition calculateMaxXTicks :: "real \<Rightarrow> string \<Rightarrow> nat" where
  "calculateMaxXTicks width mode =
    (if width < smallBreak then smallPoints
     else if width \<ge> smallBreak \<and> width \<le> mediumBreak then mediumPoints
     else if width > mediumBreak \<and> width \<le> wideBreak then
       (if mode = ''time-comparison'' then largePoints
        else if mode = ''item-comparison'' then mediumPoints
        else largePoints)
     else if width > wideBreak then
       (if mode = ''time-comparison'' then mostPoints
        else if mode = ''item-comparison'' then largePoints
        else largePoints)
     else largePoints)"

subsection \<open>getFactors\<close>

text \<open>
  The \<^verbatim>\<open>for\<close> loop of \<^verbatim>\<open>getFactors\<close>, from \<open>i\<close> on, with the array
  \<open>numFactors\<close> built so far. The guard \<^verbatim>\<open>i <= Math.floor(Math.sqrt(inputNum))\<close>
  is written \<open>i * i \<le> inputNum\<close>, which is the same test on natural numbers (lemma
  \<open>getFactors_guard\<close> below). On a divisor \<open>i\<close> the exact quotient
  \<^verbatim>\<open>inputNum / i\<close> is \<open>inputNum div i\<close>.
\<close>

function getFactors_loop :: "nat \<Rightarrow> nat \<Rightarrow> nat list \<Rightarrow> nat list" where
  "getFactors_loop inputNum i numFactors =
    (if i * i \<le> inputNum then
       getFactors_loop inputNum (i + 1)
         (if inputNum mod i = 0 then
            (if inputNum div i \<noteq> i then numFactors @ [i, inputNum div i]
             else numFactors @ [i])
          else numFactors)
     else numFactors)"
  by pat_completeness auto
termination
proof (relation "measure (\<lambda>(inputNum, i, numFactors). inputNum + 1 - i)")
  show "wf (measure (\<lambda>(inputNum, i, numFactors). inputNum + 1 - i))"
    by simp
next
  fix inputNum i :: nat and numFactors :: "nat list"
  assume "i * i \<le> inputNum"
  moreover have "i \<le> i * i"
    by (cases i) simp_all
  ultimately have "i \<le> inputNum"
    by (rule le_trans [rotated])
  then show "((inputNum, i + 1,
                if inputNum mod i = 0
                then if inputNum div i \<noteq> i then numFactors @ [i, inputNum div i]
                     else numFactors @ [i]
                else numFactors),
              inputNum, i, numFactors)
             \<in> measure (\<lambda>(inputNum, i, numFactors). inputNum + 1 - i)"
    by simp
qed

declare getFactors_loop.simps [simp del]

definition getFactors :: "nat \<Rightarrow> nat list" where
  "getFactors inputNum = sort (getFactors_loop inputNum 1 [])"

subsection \<open>calculateXTicksIncrementFactor\<close>

text \<open>
  The \<^verbatim>\<open>while\<close> loop of \<^verbatim>\<open>calculateXTicksIncrementFactor\<close>. It has no
  bound in the source, so it is a partial function: \<open>None\<close> is a loop that never
  ends. The difference \<^verbatim>\<open>uniqueDates.length - i\<close> is a negative number in
  JavaScript once \<open>i\<close> exceeds the length, where it is \<open>0\<close> here; both give the
  empty list of factors, since \<^verbatim>\<open>Math.sqrt\<close> of a negative number is NaN and the
  loop of \<^verbatim>\<open>getFactors\<close> does not run (lemma \<open>getFactors_0\<close>).
\<close>

partial_function (option) calculateXTicksIncrementFactor_loop ::
    "'d list \<Rightarrow> nat list \<Rightarrow> nat \<Rightarrow> nat list option" where
  "calculateXTicksIncrementFactor_loop uniqueDates factors i =
    (if length factors \<le> 3 then
       calculateXTicksIncrementFactor_loop uniqueDates
         (getFactors (length uniqueDates - i)) (i + 1)
     else Some factors)"

declare calculateXTicksIncrementFactor_loop.simps [code]

text \<open>
  \<^verbatim>\<open>factors.find( f => uniqueDates.length / f < maxTicks )\<close>: the first factor of
  the sorted list that passes the test, \<^verbatim>\<open>undefined\<close> (the inner \<open>None\<close>) when
  none does. The quotient is a real division.
\<close>

definition calculateXTicksIncrementFactor :: "'d list \<Rightarrow> nat \<Rightarrow> nat option option" where
  "calculateXTicksIncrementFactor uniqueDates maxTicks =
    map_option
      (List.find (\<lambda>f. real (length uniqueDates) / real f < real maxTicks))
      (calculateXTicksIncrementFactor_loop uniqueDates [] 1)"

subsection \<open>getFirstDatePerMonth\<close>

text \<open>
  \<^verbatim>\<open>dates.filter( ( date, i ) => i === 0 || month( date ) !== month( dates[ i - 1 ] ) )\<close>,
  where \<open>getMonth d\<close> stands for \<^verbatim>\<open>new Date( d ).getMonth()\<close>, a function of the
  JavaScript runtime.
\<close>

definition getFirstDatePerMonth :: "('d \<Rightarrow> nat) \<Rightarrow> 'd list \<Rightarrow> 'd list" where
  "getFirstDatePerMonth getMonth dates =
    map (\<lambda>i. dates ! i)
      (filter (\<lambda>i. i = 0 \<or> getMonth (dates ! i) \<noteq> getMonth (dates ! (i - 1)))
        [0..<length dates])"

subsection \<open>getXTicksFromIncrementFactor\<close>

text \<open>
  The \<^verbatim>\<open>for\<close> loop over \<open>idx = 0, f, 2f, ...\<close>. With \<open>f = 0\<close> it never
  ends, so it is a partial function too.
\<close>

partial_function (option) getXTicksFromIncrementFactor_loop ::
    "'d list \<Rightarrow> nat \<Rightarrow> nat \<Rightarrow> 'd list \<Rightarrow> 'd list option" where
  "getXTicksFromIncrementFactor_loop uniqueDates incrementFactor idx ticks =
    (if idx < length uniqueDates then
       getXTicksFromIncrementFactor_loop uniqueDates incrementFactor
         (idx + incrementFactor) (ticks @ [uniqueDates ! idx])
     else Some ticks)"

declare getXTicksFromIncrementFactor_loop.simps [code]

text \<open>\<^verbatim>\<open>xs[ 0 ]\<close>, which is \<^verbatim>\<open>undefined\<close> on an empty array.\<close>

definition first_elem :: "'a list \<Rightarrow> 'a option" where
  "first_elem xs = (case xs of [] \<Rightarrow> None | x # _ \<Rightarrow> Some x)"

text \<open>
  The increment factor is the result of \<^verbatim>\<open>find\<close>, so it may be
  \<^verbatim>\<open>undefined\<close>: then \<^verbatim>\<open>idx + incrementFactor\<close> is NaN after the first
  round, the test \<^verbatim>\<open>idx < uniqueDates.length\<close> fails and the loop has pushed the
  first date only. The \<^verbatim>\<open>unshift\<close> that follows the loop puts the first date back
  when the ticks do not start with it: \<open>take 1 uniqueDates\<close> is that date. On an empty
  array the loop pushes nothing, both \<^verbatim>\<open>ticks[ 0 ]\<close> and
  \<^verbatim>\<open>uniqueDates[ 0 ]\<close> are \<^verbatim>\<open>undefined\<close> and nothing is added.
\<close>

definition getXTicksFromIncrementFactor :: "'d list \<Rightarrow> nat option \<Rightarrow> 'd list option" where
  "getXTicksFromIncrementFactor uniqueDates incrementFactor =
    (case (case incrementFactor of
             None \<Rightarrow> Some (take 1 uniqueDates)
           | Some f \<Rightarrow> getXTicksFromIncrementFactor_loop uniqueDates f 0 [])
     of None \<Rightarrow> None
      | Some ticks \<Rightarrow>
          if first_elem ticks \<noteq> first_elem uniqueDates
          then Some (take 1 uniqueDates @ ticks)
          else Some ticks)"

subsection \<open>getXTicks\<close>

definition getXTicks ::
    "('d \<Rightarrow> nat) \<Rightarrow> 'd list \<Rightarrow> real \<Rightarrow> string \<Rightarrow> string \<Rightarrow> 'd list option" where
  "getXTicks getMonth uniqueDates width mode interval =
    (let maxTicks = calculateMaxXTicks width mode;
         uniqueDates' =
           (if (length uniqueDates \<ge> dayTicksThreshold \<and> interval = ''day'') \<or>
               (length uniqueDates \<ge> weekTicksThreshold \<and> interval = ''week'')
            then getFirstDatePerMonth getMonth uniqueDates
            else uniqueDates)
     in if length uniqueDates' \<le> maxTicks then Some uniqueDates'
        else (case calculateXTicksIncrementFactor uniqueDates' maxTicks of
                None \<Rightarrow> None
              | Some incrementFactor \<Rightarrow>
                  getXTicksFromIncrementFactor uniqueDates' incrementFactor))"

text \<open>
  The collapse to month starts as the specification words it: keep index 0 and every
  date whose month differs from the month of the date kept last. It is compared with
  \<open>getFirstDatePerMonth\<close>, which looks at the neighbour \<open>dates[ i - 1 ]\<close> instead.
\<close>

fun keepMonthChanges :: "('d \<Rightarrow> nat) \<Rightarrow> 'd \<Rightarrow> 'd list \<Rightarrow> 'd list" where
  "keepMonthChanges getMonth kept [] = []"
| "keepMonthChanges getMonth kept (d # ds) =
    (if getMonth d \<noteq> getMonth kept then d # keepMonthChanges getMonth d ds
     else keepMonthChanges getMonth kept ds)"

fun firstDatePerMonth_spec :: "('d \<Rightarrow> nat) \<Rightarrow> 'd list \<Rightarrow> 'd list" where
  "firstDatePerMonth_spec getMonth [] = []"
| "firstDatePerMonth_spec getMonth (d # ds) = d # keepMonthChanges getMonth d ds"

text \<open>
  Daily (or weekly) dates of a calendar: two dates of the list that each start a new
  month, at the indices \<open>i < j\<close>, are at least \<open>k\<close> entries apart. Consecutive days
  have \<open>k = 28\<close>, the length of the shortest month.
\<close>

definition monthStartsApart :: "('d \<Rightarrow> nat) \<Rightarrow> 'd list \<Rightarrow> nat \<Rightarrow> bool" where
  "monthStartsApart getMonth dates k =
    list_all (\<lambda>j. list_all (\<lambda>i.
        getMonth (dates ! i) = getMonth (dates ! (i - 1)) \<or>
        getMonth (dates ! j) = getMonth (dates ! (j - 1)) \<or> i + k \<le> j) [1..<j])
      [1..<length dates]"

subsection \<open>getDateSpaces\<close>






subsection \<open>getYMax\<close>

text \<open>
  A JavaScript number: a finite double, taken as a real number, NaN or an infinity.
\<close>

datatype js_number = Finite real | NaN | PosInfinity | NegInfinity

text \<open>
  The operand of \<^verbatim>\<open>| 0\<close>, \<^verbatim>\<open>Math.log( yMax ) * Math.LOG10E + 1\<close>.
  For \<open>yMax = 0\<close> the logarithm is \<open>-Infinity\<close>, and so are its product with the
  positive constant and the sum; for a negative \<open>yMax\<close> all three are NaN. For a
  positive \<open>yMax\<close> the value is a finite double near \<open>log 10 yMax + 1\<close>, but which
  double depends on the \<^verbatim>\<open>Math.log\<close> of the runtime, whose precision the language
  leaves open, and on the rounding of the product and of the sum: at \<open>yMax = 10\<^sup>1\<^sup>5\<close>
  it is \<open>15.999999999999998\<close> and not 16. The model takes it from the parameter
  \<open>computed\<close>, the function the runtime computes on positive numbers.
\<close>

definition log10_plus_1 :: "(real \<Rightarrow> real) \<Rightarrow> real \<Rightarrow> js_number" where
  "log10_plus_1 computed yMax =
    (if 0 < yMax then Finite (computed yMax)
     else if yMax = 0 then NegInfinity
     else NaN)"

text \<open>
  \<^verbatim>\<open>x | 0\<close>, the conversion ToInt32: NaN and the infinities give 0; a finite number
  is truncated towards zero and wrapped into the signed 32-bit range.
\<close>

fun ToInt32 :: "js_number \<Rightarrow> int" where
  "ToInt32 (Finite r) =
    ((if 0 \<le> r then \<lfloor>r\<rfloor> else \<lceil>r\<rceil>) + 2 ^ 31) mod 2 ^ 32 - 2 ^ 31"
| "ToInt32 n = 0"

text \<open>
  \<^verbatim>\<open>max\<close> of d3-array: the greatest of the values that are not
  \<^verbatim>\<open>undefined\<close>, and \<^verbatim>\<open>undefined\<close> when there is none.
\<close>

definition d3Max :: "real option list \<Rightarrow> real option" where
  "d3Max xs =
    (case List.map_filter (\<lambda>x. x) xs of
       [] \<Rightarrow> None
     | v # vs \<Rightarrow> Some (fold max vs v))"

record 'd lineValue =
  lv_date :: 'd
  lv_value :: real

record 'd lineSeries =
  ls_key :: string
  ls_values :: "'d lineValue list"

text \<open>
  \<open>maxRawValue\<close> is the argument
  \<^verbatim>\<open>d3Max( lineData, d => d3Max( d.values.map( date => date.value ) ) )\<close> of the
  first line of \<^verbatim>\<open>getYMax\<close>.
  With no value at all the maximum is \<^verbatim>\<open>undefined\<close>, \<open>yMax\<close> is NaN and so is
  the result. Otherwise \<open>yMax\<close> is finite, the exponent is an integer and
  \<^verbatim>\<open>Math.pow( 10, e )\<close> is \<open>10 powi e\<close>.
\<close>

definition maxRawValue :: "'d lineSeries list \<Rightarrow> real option" where
  "maxRawValue lineData =
    d3Max (map (\<lambda>d. d3Max (map (\<lambda>date. Some (lv_value date)) (ls_values d))) lineData)"

definition getYMax :: "(real \<Rightarrow> real) \<Rightarrow> 'd lineSeries list \<Rightarrow> js_number" where
  "getYMax computed lineData =
    (case maxRawValue lineData of
       None \<Rightarrow> NaN
     | Some m \<Rightarrow>
         (let yMax = 4 / 3 * m;
              pow3Y = 10 powi (ToInt32 (log10_plus_1 computed yMax) - 2) * 3
          in Finite (of_int \<lceil>yMax / pow3Y\<rceil> * pow3Y)))"

subsection \<open>The tooltip position\<close>

text \<open>
  A bounding rectangle, as \<^verbatim>\<open>getBoundingClientRect\<close> returns it. The three
  rectangles that \<^verbatim>\<open>calculateTooltipPosition\<close> reads from the page (of the element,
  of the chart and of the tooltip) are arguments of its model, and so is the ratio, for
  which the source has the default value 1.
\<close>

record rect =
  rect_left :: real
  rect_top :: real
  rect_width :: real
  rect_height :: real

record position =
  pos_x :: real
  pos_y :: real

definition calculateTooltipXPosition ::
    "rect \<Rightarrow> rect \<Rightarrow> rect \<Rightarrow> real \<Rightarrow> real \<Rightarrow> string \<Rightarrow> real" where
  "calculateTooltipXPosition elementCoords chartCoords tooltipSize tooltipMargin
      elementWidthRatio tooltipPosition =
    (let xPosition = rect_left elementCoords + rect_width elementCoords * elementWidthRatio
                       + tooltipMargin - rect_left chartCoords
     in if tooltipPosition = ''below'' then
          max tooltipMargin
            (min (xPosition - rect_width tooltipSize / 2)
                 (rect_width chartCoords - rect_width tooltipSize - tooltipMargin))
        else if xPosition + rect_width tooltipSize + tooltipMargin > rect_width chartCoords then
          max tooltipMargin
            (rect_left elementCoords + rect_width elementCoords * (1 - elementWidthRatio)
               - rect_width tooltipSize - tooltipMargin - rect_left chartCoords)
        else xPosition)"

definition calculateTooltipYPosition ::
    "rect \<Rightarrow> rect \<Rightarrow> rect \<Rightarrow> real \<Rightarrow> string \<Rightarrow> real" where
  "calculateTooltipYPosition elementCoords chartCoords tooltipSize tooltipMargin
      tooltipPosition =
    (if tooltipPosition = ''below'' then rect_height chartCoords
     else
       (let yPosition = rect_top elementCoords + tooltipMargin - rect_top chartCoords
        in if yPosition + rect_height tooltipSize + tooltipMargin > rect_height chartCoords then
             max 0 (rect_top elementCoords - rect_height tooltipSize - tooltipMargin
                      - rect_top chartCoords)
           else yPosition))"

definition calculateTooltipPosition ::
    "rect \<Rightarrow> rect \<Rightarrow> rect \<Rightarrow> string \<Rightarrow> real \<Rightarrow> position" where
  "calculateTooltipPosition elementCoords chartCoords tooltipSize tooltipPosition
      elementWidthRatio0 =
    (let tooltipMargin = 24;
         elementWidthRatio = (if tooltipPosition = ''below'' then 0 else elementWidthRatio0)
     in \<lparr> pos_x = calculateTooltipXPosition elementCoords chartCoords tooltipSize
                      tooltipMargin elementWidthRatio tooltipPosition,
           pos_y = calculateTooltipYPosition elementCoords chartCoords tooltipSize
                      tooltipMargin tooltipPosition \<rparr>)"

section \<open>Properties\<close>

subsection \<open>calculateMaxXTicks\<close>

lemma calculateMaxXTicks_ge_7: "7 \<le> calculateMaxXTicks width mode"
  by (simp add: calculateMaxXTicks_def smallPoints_def mediumPoints_def largePoints_def
      mostPoints_def)

text \<open>
  Claim C3. For every width and either comparison mode, \<open>calculateMaxXTicks\<close> is the
  step function with breakpoints 783, 1130 and 1365: 7 below 783; 12 from 783 to 1130
  inclusive; above 1130 and up to 1365, 16 for time-comparison and 12 for
  item-comparison; above 1365, 31 for time-comparison and 16 for item-comparison.
\<close>

theorem calculateMaxXTicks_step_function:
  "mode = ''item-comparison'' \<or> mode = ''time-comparison'' \<Longrightarrow>
   calculateMaxXTicks width mode =
     (if width < 783 then 7
      else if width \<le> 1130 then 12
      else if width \<le> 1365 then (if mode = ''time-comparison'' then 16 else 12)
      else (if mode = ''time-comparison'' then 31 else 16))"
  by (auto simp add: calculateMaxXTicks_def smallBreak_def mediumBreak_def wideBreak_def
      smallPoints_def mediumPoints_def largePoints_def mostPoints_def)

theorem calculateMaxXTicks_step_function_witness:
  "calculateMaxXTicks 782 ''time-comparison'' = 7 \<and>
   calculateMaxXTicks 783 ''item-comparison'' = 12 \<and>
   calculateMaxXTicks 1130 ''time-comparison'' = 12 \<and>
   calculateMaxXTicks 1131 ''time-comparison'' = 16 \<and>
   calculateMaxXTicks 1365 ''item-comparison'' = 12 \<and>
   calculateMaxXTicks 1366 ''time-comparison'' = 31 \<and>
   calculateMaxXTicks 1366 ''item-comparison'' = 16"
  using calculateMaxXTicks_step_function [of "''time-comparison''" 782]
    calculateMaxXTicks_step_function [of "''item-comparison''" 783]
    calculateMaxXTicks_step_function [of "''time-comparison''" 1130]
    calculateMaxXTicks_step_function [of "''time-comparison''" 1131]
    calculateMaxXTicks_step_function [of "''item-comparison''" 1365]
    calculateMaxXTicks_step_function [of "''time-comparison''" 1366]
    calculateMaxXTicks_step_function [of "''item-comparison''" 1366]
  by simp

subsection \<open>getFactors\<close>

text \<open>
  The loop keeps this invariant: before the round of \<open>i\<close> the array holds, once each,
  the divisors \<open>d\<close> of \<open>inputNum\<close> with \<open>d < i\<close> or \<open>inputNum div d < i\<close>.
\<close>

lemma divisor_small_or_cosmall:
  fixes n i d :: nat
  assumes "n < i * i" "d dvd n" "\<not> d < i"
  shows "n div d < i"
proof (rule ccontr)
  assume "\<not> n div d < i"
  then have "i \<le> n div d" by simp
  moreover from assms have "i \<le> d" by simp
  ultimately have "i * i \<le> d * (n div d)" by (rule mult_le_mono [rotated])
  also have "\<dots> \<le> n" by simp
  finally show False using assms(1) by simp
qed

lemma codivisor_eq:
  fixes n i d :: nat
  assumes "0 < n" "i dvd n" "d dvd n"
  shows "n div d = i \<longleftrightarrow> d = n div i"
  using assms by auto

lemma codivisor_dvd:
  fixes n d :: nat
  assumes "0 < n" "d dvd n"
  shows "(n div d) dvd n" "n div (n div d) = d"
  using assms by auto

lemma next_frontier:
  fixes n i :: nat
  assumes "0 < n" "0 < i"
  shows "{d. d dvd n \<and> (d < i + 1 \<or> n div d < i + 1)} =
         {d. d dvd n \<and> (d < i \<or> n div d < i)} \<union> (if i dvd n then {i, n div i} else {})"
proof (cases "i dvd n")
  case True
  have "d dvd n \<Longrightarrow> (d < i + 1 \<or> n div d < i + 1) \<longleftrightarrow> (d < i \<or> n div d < i) \<or> d = i \<or> d = n div i" for d
    using codivisor_eq [OF assms(1) True, of d] by auto
  then show ?thesis using True codivisor_dvd [OF assms(1) True] by auto
next
  case False
  have "d dvd n \<Longrightarrow> (d < i + 1 \<or> n div d < i + 1) \<longleftrightarrow> (d < i \<or> n div d < i)" for d
  proof -
    assume d: "d dvd n"
    have "d \<noteq> i" using d False by auto
    moreover have "n div d \<noteq> i" using d False assms(1)
      by (metis dvd_div_mult_self dvd_triv_left)
    ultimately show ?thesis by auto
  qed
  then show ?thesis using False by auto
qed

lemma fresh_divisors:
  fixes n i :: nat
  assumes "0 < i" "i * i \<le> n" "i dvd n"
  shows "\<not> (i < i \<or> n div i < i)" "\<not> (n div i < i \<or> n div (n div i) < i)"
proof -
  from assms have n: "0 < n"
    by (metis mult_pos_pos less_le_trans)
  show "\<not> (i < i \<or> n div i < i)"
    using assms by (simp add: div_less_iff_less_mult linorder_not_less)
  then show "\<not> (n div i < i \<or> n div (n div i) < i)"
    using codivisor_dvd(2) [OF n assms(3)] by simp
qed

lemma getFactors_loop_set:
  "0 < i \<Longrightarrow> 0 < n \<Longrightarrow> distinct acc \<Longrightarrow> set acc = {d. d dvd n \<and> (d < i \<or> n div d < i)} \<Longrightarrow>
   distinct (getFactors_loop n i acc) \<and> set (getFactors_loop n i acc) = {d. d dvd n}"
proof (induction n i acc rule: getFactors_loop.induct)
  case (1 n i acc)
  show ?case
  proof (cases "i * i \<le> n")
    case False
    have "{d. d dvd n \<and> (d < i \<or> n div d < i)} = {d. d dvd n}"
      using False divisor_small_or_cosmall [of n i] by auto
    then show ?thesis using False 1 by (simp add: getFactors_loop.simps [of n i acc])
  next
    case True
    let ?acc' = "(if n mod i = 0 then
            (if n div i \<noteq> i then acc @ [i, n div i]
             else acc @ [i])
          else acc)"
    have d: "distinct ?acc'"
      using fresh_divisors [OF \<open>0 < i\<close> True] 1(4,5)
      by (auto simp: dvd_eq_mod_eq_0 )
    have s: "set ?acc' = {d. d dvd n \<and> (d < i + 1 \<or> n div d < i + 1)}"
      unfolding next_frontier [OF \<open>0 < n\<close> \<open>0 < i\<close>] using 1(5)
      by (auto simp: dvd_eq_mod_eq_0 )
    have "distinct (getFactors_loop n (i + 1) ?acc') \<and> set (getFactors_loop n (i + 1) ?acc') = {d. d dvd n}"
      using "1.IH" [OF True _ \<open>0 < n\<close> d s] by simp
    then show ?thesis using True by (simp add: getFactors_loop.simps [of n i acc])
  qed
qed

lemma getFactors_0: "getFactors 0 = []"
  by (simp add: getFactors_def getFactors_loop.simps [of 0 "Suc 0"])

lemma getFactors_divisors:
  assumes "0 < n"
  shows "getFactors n = sorted_list_of_set {d. d dvd n}"
proof -
  have "{d. d dvd n \<and> (d < 1 \<or> n div d < 1)} = {}"
    using assms by (auto dest: dvd_imp_le)
  then have "distinct (getFactors_loop n 1 []) \<and> set (getFactors_loop n 1 []) = {d. d dvd n}"
    using getFactors_loop_set [of 1 n "[]"] assms by simp
  then have "distinct (getFactors n)" "set (getFactors n) = {d. d dvd n}" "sorted (getFactors n)"
    by (simp_all add: getFactors_def)
  then show ?thesis
    by (metis sorted_list_of_set.idem_if_sorted_distinct)
qed

lemma getFactors_guard:
  fixes i inputNum :: nat
  shows "int i \<le> \<lfloor>sqrt (real inputNum)\<rfloor> \<longleftrightarrow> i * i \<le> inputNum"
proof -
  have "int i \<le> \<lfloor>sqrt (real inputNum)\<rfloor> \<longleftrightarrow> real i \<le> sqrt (real inputNum)"
    by (simp add: le_floor_iff)
  also have "\<dots> \<longleftrightarrow> (real i)\<^sup>2 \<le> real inputNum"
    by (metis linorder_not_le of_nat_0_le_iff real_le_rsqrt real_less_lsqrt)
  also have "\<dots> \<longleftrightarrow> i * i \<le> inputNum"
    by (metis of_nat_le_iff of_nat_mult power2_eq_square)
  finally show ?thesis .
qed

subsection \<open>calculateXTicksIncrementFactor\<close>

lemma length_getFactors:
  assumes "0 < n"
  shows "length (getFactors n) = card {d. d dvd n}"
proof -
  have "finite {d. d dvd n}" using assms by simp
  then show ?thesis unfolding getFactors_divisors [OF assms] by simp
qed

lemma even_has_four_divisors:
  fixes n :: nat
  assumes "6 \<le> n" "even n"
  shows "3 < card {d. d dvd n}"
proof -
  have "finite {d. d dvd n}" using assms by simp
  moreover have "{1, 2, n div 2, n} \<subseteq> {d. d dvd n}"
    using assms by auto
  ultimately have "card {1, 2, n div 2, n} \<le> card {d. d dvd n}"
    by (rule card_mono)
  moreover have "card {1, 2, n div 2, n} = 4"
    using assms by (auto simp: card_insert_if)
  ultimately show ?thesis by simp
qed

lemma loop_finds_first:
  assumes "length factors \<le> 3" "i \<le> k"
    and "3 < length (getFactors (length uniqueDates - k))"
    and "\<forall>j. i \<le> j \<and> j < k \<longrightarrow> length (getFactors (length uniqueDates - j)) \<le> 3"
  shows "calculateXTicksIncrementFactor_loop uniqueDates factors i =
           Some (getFactors (length uniqueDates - k))"
  using assms
proof (induction "k - i" arbitrary: i factors)
  case 0
  then have "i = k" by simp
  then show ?case using 0
    by (simp add: calculateXTicksIncrementFactor_loop.simps [of uniqueDates factors]
        calculateXTicksIncrementFactor_loop.simps [of uniqueDates "getFactors (length uniqueDates - k)"])
next
  case (Suc m)
  then have "i < k" by simp
  then have "length (getFactors (length uniqueDates - i)) \<le> 3"
    using Suc.prems(4) by simp
  moreover have "m = k - (i + 1)" using Suc.hyps(2) by simp
  ultimately have "calculateXTicksIncrementFactor_loop uniqueDates (getFactors (length uniqueDates - i)) (i + 1)
       = Some (getFactors (length uniqueDates - k))"
    using Suc.hyps(1) [of "i + 1" "getFactors (length uniqueDates - i)"] Suc.prems \<open>i < k\<close>
    by simp
  then show ?case using Suc.prems(1)
    by (simp add: calculateXTicksIncrementFactor_loop.simps [of uniqueDates factors])
qed

text \<open>
  The loop returns only when some \<open>length - k\<close>, from the current \<open>i\<close> on, has
  more than three factors: by induction on the iteration that defines the loop.
\<close>

lemma loop_returns_only_if:
  fixes uniqueDates :: "'d list"
  assumes "calculateXTicksIncrementFactor_loop uniqueDates factors i = Some y"
  shows "3 < length factors \<or> (\<exists>k\<ge>i. 3 < length (getFactors (length uniqueDates - k)))"
proof (rule calculateXTicksIncrementFactor_loop.raw_induct
    [where P = "\<lambda>ud fs i y. 3 < length fs \<or> (\<exists>k\<ge>i. 3 < length (getFactors (length ud - k)))",
      OF _ assms])
  fix loop :: "'d list \<Rightarrow> nat list \<Rightarrow> nat \<Rightarrow> nat list option"
    and ud :: "'d list" and fs i y
  assume IH: "\<And>ud fs i y. loop ud fs i = Some y \<Longrightarrow>
      3 < length fs \<or> (\<exists>k\<ge>i. 3 < length (getFactors (length ud - k)))"
    and step: "(if length fs \<le> 3 then loop ud (getFactors (length ud - i)) (i + 1)
                else Some fs) = Some y"
  show "3 < length fs \<or> (\<exists>k\<ge>i. 3 < length (getFactors (length ud - k)))"
  proof (cases "length fs \<le> 3")
    case True
    with step have "loop ud (getFactors (length ud - i)) (i + 1) = Some y"
      by simp
    from IH [OF this] show ?thesis
    proof
      assume "3 < length (getFactors (length ud - i))"
      then show ?thesis by blast
    next
      assume "\<exists>k\<ge>i + 1. 3 < length (getFactors (length ud - k))"
      then obtain k where "i + 1 \<le> k" "3 < length (getFactors (length ud - k))" by blast
      then have "i \<le> k" by simp
      then show ?thesis using \<open>3 < length (getFactors (length ud - k))\<close> by blast
    qed
  next
    case False
    then show ?thesis by simp
  qed
qed

lemma getFactors_6:  "getFactors 6 = [1, 2, 3, 6]"
  by code_simp
lemma getFactors_7:  "getFactors 7 = [1, 7]"
  by code_simp

text \<open>
  With at least 7 dates the loop stops at \<open>i = 1\<close> or \<open>i = 2\<close>: one of
  \<open>length - 1\<close> and \<open>length - 2\<close> is even and at least 6.
\<close>

lemma first_factor_found:
  fixes uniqueDates :: "'d list"
  assumes "7 \<le> length uniqueDates"
  shows "\<exists>i. 1 \<le> i \<and> i \<le> 2 \<and>
    3 < length (getFactors (length uniqueDates - i)) \<and>
    (\<forall>j. 1 \<le> j \<and> j < i \<longrightarrow> length (getFactors (length uniqueDates - j)) \<le> 3) \<and>
    calculateXTicksIncrementFactor_loop uniqueDates [] 1 = Some (getFactors (length uniqueDates - i))"
proof (cases "3 < length (getFactors (length uniqueDates - 1))")
  case True
  then have "calculateXTicksIncrementFactor_loop uniqueDates [] 1 = Some (getFactors (length uniqueDates - 1))"
    by (intro loop_finds_first) simp_all
  with True show ?thesis
    by (intro exI [of _ 1]) simp
next
  case False
  have "odd (length uniqueDates - 1)"
  proof
    assume "even (length uniqueDates - 1)"
    then have "3 < card {d. d dvd (length uniqueDates - 1)}"
      using assms by (intro even_has_four_divisors) simp_all
    then show False using False assms by (simp add: length_getFactors)
  qed
  then have "even (length uniqueDates - 2)"
    using assms by presburger
  moreover from this have "6 \<le> length uniqueDates - 2"
    using assms by presburger
  ultimately have four: "3 < length (getFactors (length uniqueDates - 2))"
    using even_has_four_divisors [of "length uniqueDates - 2"] by (simp add: length_getFactors)
  have before: "length (getFactors (length uniqueDates - j)) \<le> 3" if "1 \<le> j \<and> j < 2" for j
  proof -
    from that have "j = 1" by simp
    then show ?thesis using False by simp
  qed
  have "calculateXTicksIncrementFactor_loop uniqueDates [] 1 = Some (getFactors (length uniqueDates - 2))"
    using four before by (intro loop_finds_first) simp_all
  with four before show ?thesis
    by (intro exI [of _ 2]) simp
qed

lemma find_sorted_least:
  fixes xs :: "nat list"
  assumes "sorted xs" "x \<in> set xs" "P x"
  shows "\<exists>f. List.find P xs = Some f \<and> f \<in> set xs \<and> P f \<and> (\<forall>g\<in>set xs. P g \<longrightarrow> f \<le> g)"
proof -
  from assms(2,3) have "List.find P xs \<noteq> None"
    by (auto simp: find_None_iff)
  then obtain f where f: "List.find P xs = Some f" by blast
  then obtain k where k: "k < length xs" "P (xs ! k)" "f = xs ! k" "\<forall>j<k. \<not> P (xs ! j)"
    unfolding find_Some_iff by blast
  have "f \<le> g" if "g \<in> set xs" "P g" for g
  proof -
    from that(1) obtain m where m: "m < length xs" "g = xs ! m"
      by (auto simp: in_set_conv_nth)
    with that(2) k(4) have "k \<le> m" by (meson not_less)
    then show ?thesis using assms(1) m k(3) by (simp add: sorted_nth_mono)
  qed
  with f k show ?thesis by auto
qed

lemma calculateXTicksIncrementFactor_core:
  fixes uniqueDates :: "'d list"
  assumes "7 \<le> length uniqueDates" "2 \<le> maxTicks"
  shows "\<exists>i f. 1 \<le> i \<and> i \<le> 2
      \<and> 3 < card {d. d dvd (length uniqueDates - i)}
      \<and> (\<forall>j. 1 \<le> j \<and> j < i \<longrightarrow> card {d. d dvd (length uniqueDates - j)} \<le> 3)
      \<and> calculateXTicksIncrementFactor_loop uniqueDates [] 1 =
          Some (sorted_list_of_set {d. d dvd (length uniqueDates - i)})
      \<and> calculateXTicksIncrementFactor uniqueDates maxTicks = Some (Some f)
      \<and> f dvd (length uniqueDates - i)
      \<and> real (length uniqueDates) / real f < real maxTicks
      \<and> (\<forall>g. g dvd (length uniqueDates - i) \<and> real (length uniqueDates) / real g < real maxTicks
            \<longrightarrow> f \<le> g)"
proof -
  let ?len = "length uniqueDates"
  let ?P = "\<lambda>f. real ?len / real f < real maxTicks"
  from first_factor_found [OF assms(1)] obtain i where i: "1 \<le> i" "i \<le> 2"
    "3 < length (getFactors (?len - i))"
    "\<forall>j. 1 \<le> j \<and> j < i \<longrightarrow> length (getFactors (?len - j)) \<le> 3"
    "calculateXTicksIncrementFactor_loop uniqueDates [] 1 = Some (getFactors (?len - i))"
    by blast
  let ?n = "?len - i"
  have n: "0 < ?n" using assms(1) i(2) by simp
  have fin: "finite {d. d dvd ?n}" using n by simp
  have gf: "getFactors ?n = sorted_list_of_set {d. d dvd ?n}"
    using n by (rule getFactors_divisors)
  have "real ?len < 2 * real ?n" using assms(1) i(2) by simp
  then have "real ?len / real ?n < 2" using n by (simp add: divide_less_eq)
  then have Pn: "?P ?n" using assms(2) by simp
  have "sorted (getFactors ?n)" "?n \<in> set (getFactors ?n)"
    unfolding gf using fin by simp_all
  from find_sorted_least [of "getFactors ?n" ?n ?P, OF this Pn] obtain f where f:
    "List.find ?P (getFactors ?n) = Some f" "f \<in> set (getFactors ?n)" "?P f"
    "\<forall>g\<in>set (getFactors ?n). ?P g \<longrightarrow> f \<le> g"
    by blast
  have "3 < card {d. d dvd ?n}"
    using i(3) n by (simp add: length_getFactors)
  moreover have "\<forall>j. 1 \<le> j \<and> j < i \<longrightarrow> card {d. d dvd (?len - j)} \<le> 3"
  proof (intro allI impI)
    fix j assume j: "1 \<le> j \<and> j < i"
    then have "0 < ?len - j" using assms(1) i(2) by simp
    then show "card {d. d dvd (?len - j)} \<le> 3"
      using i(4) j by (simp add: length_getFactors [symmetric])
  qed
  moreover have "calculateXTicksIncrementFactor uniqueDates maxTicks = Some (Some f)"
    unfolding calculateXTicksIncrementFactor_def i(5) by (simp add: f(1))
  moreover have "f dvd ?n" using f(2) fin unfolding gf by simp
  moreover have "\<forall>g. g dvd ?n \<and> ?P g \<longrightarrow> f \<le> g"
    using f(4) fin unfolding gf by simp
  ultimately show ?thesis
    using i(1,2,5) f(3) unfolding gf by blast
qed

text \<open>
  Claim C2. In \<open>getXTicks\<close> the function is called with
  \<open>maxTicks = calculateMaxXTicks width mode\<close> on an array longer than \<open>maxTicks\<close>.
  For every such array the loop computes the sorted divisors of \<open>length - i\<close> for
  \<open>i = 1, 2, ...\<close> and stops at the first \<open>i\<close> for which there are more than 3,
  and the function returns the smallest divisor \<open>f\<close> of that number with
  \<open>length / f < maxTicks\<close>.
\<close>

theorem calculateXTicksIncrementFactor_smallest_divisor:
  fixes uniqueDates :: "'d list"
  assumes "maxTicks = calculateMaxXTicks width mode" "maxTicks < length uniqueDates"
  shows "\<exists>i f. 1 \<le> i \<and> i < length uniqueDates
      \<and> 3 < card {d. d dvd (length uniqueDates - i)}
      \<and> (\<forall>j. 1 \<le> j \<and> j < i \<longrightarrow> card {d. d dvd (length uniqueDates - j)} \<le> 3)
      \<and> calculateXTicksIncrementFactor_loop uniqueDates [] 1 =
          Some (sorted_list_of_set {d. d dvd (length uniqueDates - i)})
      \<and> calculateXTicksIncrementFactor uniqueDates maxTicks = Some (Some f)
      \<and> f dvd (length uniqueDates - i)
      \<and> real (length uniqueDates) / real f < real maxTicks
      \<and> (\<forall>g. g dvd (length uniqueDates - i) \<and> real (length uniqueDates) / real g < real maxTicks
            \<longrightarrow> f \<le> g)"
proof -
  have "7 \<le> maxTicks"
    unfolding assms(1) by (rule calculateMaxXTicks_ge_7)
  then have len: "7 \<le> length uniqueDates" and m: "2 \<le> maxTicks"
    using assms(2) by simp_all
  from calculateXTicksIncrementFactor_core [OF len m] obtain i f where
    *: "1 \<le> i" "i \<le> 2"
      "3 < card {d. d dvd (length uniqueDates - i)}"
      "\<forall>j. 1 \<le> j \<and> j < i \<longrightarrow> card {d. d dvd (length uniqueDates - j)} \<le> 3"
      "calculateXTicksIncrementFactor_loop uniqueDates [] 1 =
          Some (sorted_list_of_set {d. d dvd (length uniqueDates - i)})"
      "calculateXTicksIncrementFactor uniqueDates maxTicks = Some (Some f)"
      "f dvd (length uniqueDates - i)"
      "real (length uniqueDates) / real f < real maxTicks"
      "\<forall>g. g dvd (length uniqueDates - i) \<and> real (length uniqueDates) / real g < real maxTicks
            \<longrightarrow> f \<le> g"
    by blast
  from *(2) len have "i < length uniqueDates" by simp
  with * show ?thesis by blast
qed

theorem calculateXTicksIncrementFactor_smallest_divisor_witness:
  "7 = calculateMaxXTicks 500 ''item-comparison'' \<and>
   7 < length [1, 2, 3, 4, 5, 6, 7, 8 :: nat] \<and>
   calculateXTicksIncrementFactor [1, 2, 3, 4, 5, 6, 7, 8 :: nat] 7 = Some (Some 2)"
proof -
  let ?ud = "[1, 2, 3, 4, 5, 6, 7, 8 :: nat]"
  have len: "length ?ud = 8" by simp
  have mt: "7 = calculateMaxXTicks 500 ''item-comparison''"
    by (simp add: calculateMaxXTicks_def smallBreak_def smallPoints_def)
  have lt: "7 < length ?ud" by simp
  from calculateXTicksIncrementFactor_smallest_divisor [OF mt lt]
  obtain i f where *: "1 \<le> i" "i < 8"
      "3 < card {d. d dvd (8 - i)}"
      "\<forall>j. 1 \<le> j \<and> j < i \<longrightarrow> card {d. d dvd (8 - j)} \<le> 3"
      "calculateXTicksIncrementFactor ?ud 7 = Some (Some f)"
      "f dvd (8 - i)"
      "real 8 / real f < real 7"
      "\<forall>g. g dvd (8 - i) \<and> real 8 / real g < real 7 \<longrightarrow> f \<le> g"
    unfolding len by auto
  have c7: "card {d. d dvd (7::nat)} = 2"
    using length_getFactors [of 7] by (simp add: getFactors_7)
  have c6: "card {d. d dvd (6::nat)} = 4"
    using length_getFactors [of 6] by (simp add: getFactors_6)
  have "i \<noteq> 1" using *(3) c7 by auto
  moreover have "i \<le> 2"
  proof (rule ccontr)
    assume "\<not> i \<le> 2"
    then have "1 \<le> (2::nat) \<and> 2 < i" by simp
    with *(4) have "card {d. d dvd (8 - 2::nat)} \<le> 3" by blast
    then show False using c6 by simp
  qed
  ultimately have i2: "i = 2" using *(1) by simp
  have "f \<noteq> 1" using *(7) by auto
  moreover have "f \<le> 2" using *(8) i2 by auto
  moreover have "f \<noteq> 0"
  proof
    assume "f = 0"
    with *(6) i2 show False by simp
  qed
  ultimately have "f = 2" by simp
  with *(5) mt show ?thesis by simp
qed

text \<open>
  Claim C10. When \<open>maxTicks\<close> is at least 7, as every result of
  \<open>calculateMaxXTicks\<close> is (lemma \<open>calculateMaxXTicks_ge_7\<close>), and the array is
  longer than \<open>maxTicks\<close>, the loop ends: some \<open>length - i\<close> with
  \<open>1 \<le> i < length\<close> has more than 3 divisors. The search that follows finds one of
  these divisors, so the function returns an integer \<open>f \<ge> 1\<close>, a divisor of
  \<open>length - i\<close> from the list, and not \<^verbatim>\<open>undefined\<close>.
\<close>

theorem calculateXTicksIncrementFactor_returns:
  fixes uniqueDates :: "'d list"
  assumes "7 \<le> maxTicks" "maxTicks < length uniqueDates"
  shows "\<exists>i factors f. 1 \<le> i \<and> i < length uniqueDates
      \<and> 3 < card {d. d dvd (length uniqueDates - i)}
      \<and> calculateXTicksIncrementFactor_loop uniqueDates [] 1 = Some factors
      \<and> factors = getFactors (length uniqueDates - i)
      \<and> calculateXTicksIncrementFactor uniqueDates maxTicks = Some (Some f)
      \<and> f \<in> set factors \<and> f dvd (length uniqueDates - i)
      \<and> 1 \<le> f \<and> real (length uniqueDates) / real f < real maxTicks"
proof -
  have len: "7 \<le> length uniqueDates" and m: "2 \<le> maxTicks"
    using assms by simp_all
  from calculateXTicksIncrementFactor_core [OF len m] obtain i f where
    *: "1 \<le> i" "i \<le> 2"
      "3 < card {d. d dvd (length uniqueDates - i)}"
      "calculateXTicksIncrementFactor_loop uniqueDates [] 1 =
          Some (sorted_list_of_set {d. d dvd (length uniqueDates - i)})"
      "calculateXTicksIncrementFactor uniqueDates maxTicks = Some (Some f)"
      "f dvd (length uniqueDates - i)"
      "real (length uniqueDates) / real f < real maxTicks"
    by blast
  have n: "0 < length uniqueDates - i" using len *(2) by simp
  from n *(6) have "0 < f" by (rule dvd_pos_nat)
  moreover from *(2) len have "i < length uniqueDates" by simp
  moreover have "f \<in> set (getFactors (length uniqueDates - i))"
    unfolding getFactors_divisors [OF n] using n *(6) by simp
  ultimately show ?thesis
    using * getFactors_divisors [OF n] by (intro exI [of _ i] exI [of _ f]) simp
qed

theorem calculateXTicksIncrementFactor_returns_witness:
  "(7::nat) \<le> 12 \<and> 12 < length [0..<13] \<and>
   (\<exists>i factors f. 1 \<le> i \<and> i < length [0..<13]
      \<and> 3 < card {d. d dvd (length [0..<13] - i)}
      \<and> calculateXTicksIncrementFactor_loop [0..<13] [] 1 = Some factors
      \<and> factors = getFactors (length [0..<13] - i)
      \<and> calculateXTicksIncrementFactor [0..<13] 12 = Some (Some f)
      \<and> f \<in> set factors \<and> f dvd (length [0..<13] - i)
      \<and> 1 \<le> f \<and> real (length [0..<13]) / real f < real 12)"
  using calculateXTicksIncrementFactor_returns [of 12 "[0..<13]"] by simp

subsection \<open>getXTicksFromIncrementFactor\<close>

text \<open>
  With a positive increment factor the loop ends. From \<open>idx\<close> on it appends a
  subsequence of the remaining dates, one date for each stride, that starts with the
  date at \<open>idx\<close>.
\<close>

lemma stride_count_step:
  fixes n f :: nat
  assumes "0 < f" "0 < n"
  shows "(n + f - 1) div f = Suc ((n - f + f - 1) div f)"
proof (cases "f \<le> n")
  case True
  then have "n + f - 1 = (n - 1) + f" "n - f + f - 1 = n - 1"
    using assms by arith+
  then show ?thesis using assms(1) by (simp only: div_add_self2)
next
  case False
  then have "n - f + f - 1 = f - 1" by arith
  then have "(n - f + f - 1) div f = 0"
    using assms by (simp only: div_less diff_less zero_less_one)
  moreover have "f * 1 \<le> n + f - 1" "n + f - 1 < f * Suc 1"
    using False assms by arith+
  then have "(n + f - 1) div f = 1"
    by (rule div_nat_eqI)
  ultimately show ?thesis by (simp only: One_nat_def)
qed

lemma ticks_loop_result:
  assumes "0 < f"
  shows "\<exists>r. getXTicksFromIncrementFactor_loop uniqueDates f idx ticks = Some (ticks @ r)
      \<and> subseq r (drop idx uniqueDates)
      \<and> length r = (length uniqueDates - idx + f - 1) div f
      \<and> (idx < length uniqueDates \<longrightarrow> first_elem r = Some (uniqueDates ! idx))"
proof (induction "length uniqueDates - idx" arbitrary: idx ticks rule: less_induct)
  case less
  show ?case
  proof (cases "idx < length uniqueDates")
    case False
    then show ?thesis
      using assms
      by (simp add: getXTicksFromIncrementFactor_loop.simps [of uniqueDates f idx ticks])
  next
    case True
    then have "length uniqueDates - (idx + f) < length uniqueDates - idx"
      using assms by simp
    from less [OF this, of "ticks @ [uniqueDates ! idx]"] obtain r where r:
      "getXTicksFromIncrementFactor_loop uniqueDates f (idx + f) (ticks @ [uniqueDates ! idx])
         = Some ((ticks @ [uniqueDates ! idx]) @ r)"
      "subseq r (drop (idx + f) uniqueDates)"
      "length r = (length uniqueDates - (idx + f) + f - 1) div f"
      by blast
    let ?r = "uniqueDates ! idx # r"
    have "getXTicksFromIncrementFactor_loop uniqueDates f idx ticks = Some (ticks @ ?r)"
      using True r(1)
      by (simp add: getXTicksFromIncrementFactor_loop.simps [of uniqueDates f idx ticks])
    moreover have "subseq ?r (drop idx uniqueDates)"
    proof -
      have "drop idx uniqueDates = uniqueDates ! idx # drop (Suc idx) uniqueDates"
        using True by (simp add: Cons_nth_drop_Suc)
      moreover have "drop (Suc idx) uniqueDates =
          take (f - 1) (drop (Suc idx) uniqueDates) @ drop (idx + f) uniqueDates"
      proof -
        have "drop (f - 1) (drop (Suc idx) uniqueDates) = drop (idx + f) uniqueDates"
          using assms by (simp add: add.commute)
        then show ?thesis
          using append_take_drop_id [of "f - 1" "drop (Suc idx) uniqueDates"] by simp
      qed
      ultimately show ?thesis using r(2)
        by (metis list_emb_append2 subseq_Cons2)
    qed
    moreover have "length ?r = (length uniqueDates - idx + f - 1) div f"
    proof -
      have "0 < length uniqueDates - idx" using True by simp
      from stride_count_step [OF assms this]
      have "(length uniqueDates - idx + f - 1) div f =
          Suc ((length uniqueDates - idx - f + f - 1) div f)" .
      also have "length uniqueDates - idx - f = length uniqueDates - (idx + f)"
        by (rule diff_diff_left)
      finally show ?thesis using r(3) by (simp only: list.size add_Suc_right add_0_right Suc_eq_plus1)
    qed
    ultimately show ?thesis by (simp add: first_elem_def)
  qed
qed


lemma length_ticks_le:
  fixes len f maxTicks :: nat
  assumes "0 < f" "real len / real f < real maxTicks"
  shows "(len - 0 + f - 1) div f \<le> maxTicks"
proof -
  from assms have "real len < real maxTicks * real f"
    by (simp add: divide_less_eq)
  then have "len < maxTicks * f"
    by (metis of_nat_less_iff of_nat_mult)
  then have "len + f - 1 < (maxTicks + 1) * f" using assms(1) by simp
  then have "(len + f - 1) div f < maxTicks + 1"
    using assms(1) by (simp add: div_less_iff_less_mult)
  then show ?thesis by simp
qed

lemma subseq_sorted_wrt:
  assumes "subseq xs ys" "sorted_wrt R ys"
  shows "sorted_wrt R xs"
  using assms
proof (induction rule: list_emb.induct)
  case (list_emb_Cons2 x y xs ys)
  then have "set xs \<subseteq> set ys"
    by (auto dest: list_emb_set)
  with list_emb_Cons2 show ?case by auto
qed simp_all

subsection \<open>getFirstDatePerMonth\<close>

text \<open>
  The filter of the source compares each date with its neighbour \<open>dates[ i - 1 ]\<close>;
  the specification compares it with the date kept last. Both keep the same dates: the
  dates dropped since the date kept last all have its month.
\<close>

lemma keepMonthChanges_same_month:
  "getMonth k = getMonth k' \<Longrightarrow> keepMonthChanges getMonth k ds = keepMonthChanges getMonth k' ds"
  by (induction ds) simp_all

lemma neighbour_filter_eq:
  "getMonth p = getMonth k \<Longrightarrow>
   map (\<lambda>i. (p # ds) ! i)
     (filter (\<lambda>i. i = 0 \<or> getMonth ((p # ds) ! i) \<noteq> getMonth ((p # ds) ! (i - 1)))
        [1..<Suc (length ds)])
   = keepMonthChanges getMonth k ds"
proof (induction ds arbitrary: p k)
  case Nil
  then show ?case by simp
next
  case (Cons x xs)
  let ?Q = "\<lambda>ys i. i = 0 \<or> getMonth (ys ! i) \<noteq> getMonth (ys ! (i - 1))"
  have split: "[1..<Suc (length (x # xs))] = 1 # map Suc [1..<Suc (length xs)]"
    by (simp add: upt_conv_Cons map_Suc_upt del: upt_Suc)
  have rest: "map (\<lambda>i. (p # x # xs) ! i) (filter (?Q (p # x # xs)) (map Suc [1..<Suc (length xs)]))
      = map (\<lambda>i. (x # xs) ! i) (filter (?Q (x # xs)) [1..<Suc (length xs)])"
    unfolding filter_map map_map
    by (intro arg_cong2 [where f = map] filter_cong refl ext)
      (auto simp: o_def nth_Cons' simp del: upt_Suc)
  show ?case
  proof (cases "getMonth x = getMonth p")
    case True
    then have "getMonth x = getMonth k" using Cons.prems by simp
    from Cons.IH [OF this] show ?thesis
      unfolding split using True Cons.prems rest by simp
  next
    case False
    from Cons.IH [of x x] show ?thesis
      unfolding split using False Cons.prems rest by simp
  qed
qed

lemma getFirstDatePerMonth_eq_spec:
  "getFirstDatePerMonth getMonth dates = firstDatePerMonth_spec getMonth dates"
proof (cases dates)
  case Nil
  then show ?thesis by (simp add: getFirstDatePerMonth_def)
next
  case (Cons d ds)
  have "[0..<length (d # ds)] = 0 # [1..<Suc (length ds)]"
    by (simp add: upt_conv_Cons del: upt_Suc)
  then show ?thesis
    unfolding Cons getFirstDatePerMonth_def
    using neighbour_filter_eq [of getMonth d d ds] by simp
qed

lemma subseq_keepMonthChanges: "subseq (keepMonthChanges getMonth k ds) ds"
  by (induction ds arbitrary: k) auto

lemma subseq_getFirstDatePerMonth: "subseq (getFirstDatePerMonth getMonth dates) dates"
  unfolding getFirstDatePerMonth_eq_spec
  by (cases dates) (simp_all add: subseq_keepMonthChanges)

lemma first_elem_getFirstDatePerMonth:
  "first_elem (getFirstDatePerMonth getMonth dates) = first_elem dates"
  unfolding getFirstDatePerMonth_eq_spec
  by (cases dates) (simp_all add: first_elem_def)

text \<open>
  When two month starts are at least \<open>k\<close> entries apart, the indices that start a
  month fall into different blocks of \<open>k\<close> indices, which bounds their number.
\<close>

lemma monthStartsApart_iff:
  "monthStartsApart getMonth dates k \<longleftrightarrow>
   (\<forall>j i. 1 \<le> i \<and> i < j \<and> j < length dates
      \<and> getMonth (dates ! i) \<noteq> getMonth (dates ! (i - 1))
      \<and> getMonth (dates ! j) \<noteq> getMonth (dates ! (j - 1)) \<longrightarrow> i + k \<le> j)"
proof -
  let ?A = "\<lambda>i j. getMonth (dates ! i) = getMonth (dates ! (i - 1)) \<or>
      getMonth (dates ! j) = getMonth (dates ! (j - 1)) \<or> i + k \<le> j"
  have "monthStartsApart getMonth dates k \<longleftrightarrow>
      (\<forall>j\<in>{1..<length dates}. \<forall>i\<in>{1..<j}. ?A i j)"
    unfolding monthStartsApart_def list_all_iff by (simp del: upt_Suc)
  also have "\<dots> \<longleftrightarrow> (\<forall>j i. 1 \<le> i \<and> i < j \<and> j < length dates \<longrightarrow> ?A i j)"
  proof (intro iffI allI impI ballI)
    fix j i
    assume "\<forall>j\<in>{1..<length dates}. \<forall>i\<in>{1..<j}. ?A i j"
      and "1 \<le> i \<and> i < j \<and> j < length dates"
    moreover from this(2) have "j \<in> {1..<length dates}" "i \<in> {1..<j}" by simp_all
    ultimately show "?A i j" by blast
  next
    fix j i
    assume "\<forall>j i. 1 \<le> i \<and> i < j \<and> j < length dates \<longrightarrow> ?A i j"
      and "j \<in> {1..<length dates}" "i \<in> {1..<j}"
    moreover from this(2,3) have "1 \<le> i \<and> i < j \<and> j < length dates" by simp
    ultimately show "?A i j" by blast
  qed
  also have "\<dots> \<longleftrightarrow> (\<forall>j i. 1 \<le> i \<and> i < j \<and> j < length dates
      \<and> getMonth (dates ! i) \<noteq> getMonth (dates ! (i - 1))
      \<and> getMonth (dates ! j) \<noteq> getMonth (dates ! (j - 1)) \<longrightarrow> i + k \<le> j)"
    by blast
  finally show ?thesis .
qed

lemma length_getFirstDatePerMonth_le:
  assumes "0 < k" "monthStartsApart getMonth dates k"
  shows "length (getFirstDatePerMonth getMonth dates) \<le> (length dates - 1) div k + 2"
proof -
  let ?n = "length dates"
  let ?change = "\<lambda>i. getMonth (dates ! i) \<noteq> getMonth (dates ! (i - 1))"
  define S where "S = {i. 1 \<le> i \<and> i < ?n \<and> ?change i}"
  have apart: "i + k \<le> j" if "i \<in> S" "j \<in> S" "i < j" for i j
    using assms(2) that unfolding monthStartsApart_iff S_def by blast
  have "inj_on (\<lambda>s. s div k) S"
  proof (rule inj_onI)
    fix i j assume ij: "i \<in> S" "j \<in> S" "i div k = j div k"
    show "i = j"
    proof (rule ccontr)
      assume "i \<noteq> j"
      then consider "i < j" | "j < i" by arith
      then show False
      proof cases
        case 1
        from apart [OF ij(1,2) 1] have "i div k + 1 \<le> j div k"
          using assms(1) by (metis div_add_self2 div_le_mono less_numeral_extra(3))
        with ij(3) show False by simp
      next
        case 2
        from apart [OF ij(2,1) 2] have "j div k + 1 \<le> i div k"
          using assms(1) by (metis div_add_self2 div_le_mono less_numeral_extra(3))
        with ij(3) show False by simp
      qed
    qed
  qed
  moreover have "(\<lambda>s. s div k) ` S \<subseteq> {0..(?n - 1) div k}"
    unfolding S_def by (auto intro!: div_le_mono)
  ultimately have "card S \<le> card {0..(?n - 1) div k}"
    by (intro card_inj_on_le) simp_all
  then have cardS: "card S \<le> (?n - 1) div k + 1" by simp
  have "length (getFirstDatePerMonth getMonth dates) =
      card {i. i < ?n \<and> (i = 0 \<or> ?change i)}"
    unfolding getFirstDatePerMonth_def length_map length_filter_conv_card
    by (intro arg_cong [where f = card]) (auto simp del: upt_Suc)
  also have "{i. i < ?n \<and> (i = 0 \<or> ?change i)} \<subseteq> insert 0 S"
    unfolding S_def by auto
  then have "card {i. i < ?n \<and> (i = 0 \<or> ?change i)} \<le> card (insert 0 S)"
    by (intro card_mono) (simp_all add: S_def)
  also have "\<dots> \<le> card S + 1"
    by (simp add: card_insert_if S_def)
  finally show ?thesis using cardS by simp
qed

subsection \<open>getXTicks\<close>

lemma first_elem_nth: "xs \<noteq> [] \<Longrightarrow> first_elem xs = Some (xs ! 0)"
  by (cases xs) (simp_all add: first_elem_def)

lemma getXTicksFromIncrementFactor_stride:
  assumes "0 < f"
  shows "\<exists>ticks. getXTicksFromIncrementFactor uniqueDates (Some f) = Some ticks
      \<and> subseq ticks uniqueDates
      \<and> length ticks = (length uniqueDates + f - 1) div f
      \<and> first_elem ticks = first_elem uniqueDates"
proof -
  from ticks_loop_result [OF assms, of uniqueDates 0 "[]"] obtain r where r:
    "getXTicksFromIncrementFactor_loop uniqueDates f 0 [] = Some r"
    "subseq r uniqueDates"
    "length r = (length uniqueDates + f - 1) div f"
    "0 < length uniqueDates \<longrightarrow> first_elem r = Some (uniqueDates ! 0)"
    by auto
  have "first_elem r = first_elem uniqueDates"
  proof (cases "uniqueDates = []")
    case True
    with r(2) have "r = []" by (auto dest: list_emb_Nil2)
    with True show ?thesis by simp
  next
    case False
    with r(4) show ?thesis by (simp add: first_elem_nth)
  qed
  with r show ?thesis
    by (simp add: getXTicksFromIncrementFactor_def)
qed

lemma getXTicks_ticks_core:
  fixes uniqueDates :: "'d list"
  shows "\<exists>ticks. getXTicks getMonth uniqueDates width mode interval = Some ticks
      \<and> length ticks \<le> calculateMaxXTicks width mode
      \<and> subseq ticks uniqueDates
      \<and> first_elem ticks = first_elem uniqueDates"
proof -
  define maxTicks where "maxTicks = calculateMaxXTicks width mode"
  define ud where "ud =
     (if (length uniqueDates \<ge> dayTicksThreshold \<and> interval = ''day'') \<or>
         (length uniqueDates \<ge> weekTicksThreshold \<and> interval = ''week'')
      then getFirstDatePerMonth getMonth uniqueDates
      else uniqueDates)"
  have ud: "subseq ud uniqueDates" "first_elem ud = first_elem uniqueDates"
    by (simp_all add: ud_def subseq_getFirstDatePerMonth first_elem_getFirstDatePerMonth)
  have m7: "7 \<le> maxTicks"
    unfolding maxTicks_def by (rule calculateMaxXTicks_ge_7)
  have unfold: "getXTicks getMonth uniqueDates width mode interval =
     (if length ud \<le> maxTicks then Some ud
      else (case calculateXTicksIncrementFactor ud maxTicks of
              None \<Rightarrow> None
            | Some incrementFactor \<Rightarrow> getXTicksFromIncrementFactor ud incrementFactor))"
    by (simp only: getXTicks_def Let_def ud_def maxTicks_def)
  show ?thesis
  proof (cases "length ud \<le> maxTicks")
    case True
    with ud unfold show ?thesis by (simp add: maxTicks_def)
  next
    case False
    then have len: "7 \<le> length ud" and m2: "2 \<le> maxTicks" using m7 by simp_all
    from calculateXTicksIncrementFactor_core [OF len m2] obtain i f where f:
      "i \<le> 2"
      "calculateXTicksIncrementFactor ud maxTicks = Some (Some f)"
      "f dvd (length ud - i)"
      "real (length ud) / real f < real maxTicks"
      by blast
    have "0 < length ud - i" using len f(1) by simp
    from this f(3) have fpos: "0 < f" by (rule dvd_pos_nat)
    from getXTicksFromIncrementFactor_stride [OF fpos, of ud] obtain ticks where t:
      "getXTicksFromIncrementFactor ud (Some f) = Some ticks"
      "subseq ticks ud"
      "length ticks = (length ud + f - 1) div f"
      "first_elem ticks = first_elem ud"
      by blast
    have "length ticks \<le> maxTicks"
      using length_ticks_le [OF fpos f(4)] t(3) by simp
    moreover have "subseq ticks uniqueDates"
      using t(2) ud(1) by (rule subseq_order.trans)
    ultimately show ?thesis
      using False unfold f(2) t(1,4) ud(2) by (simp add: maxTicks_def)
  qed
qed

text \<open>
  Claim C1. For every non-empty array of unique dates in ascending order of their parsed
  dates, and every width, mode and interval, \<open>getXTicks\<close> returns a tick list of
  length at most \<open>calculateMaxXTicks width mode\<close>, which is a subsequence of the
  input, strictly increasing, and starts with the first date of the input.
\<close>

theorem getXTicks_ticks:
  fixes uniqueDates :: "'d list" and parseDate :: "'d \<Rightarrow> real"
  assumes "uniqueDates \<noteq> []"
    and "sorted_wrt (\<lambda>a b. parseDate a < parseDate b) uniqueDates"
  shows "\<exists>ticks. getXTicks getMonth uniqueDates width mode interval = Some ticks
      \<and> length ticks \<le> calculateMaxXTicks width mode
      \<and> subseq ticks uniqueDates
      \<and> sorted_wrt (\<lambda>a b. parseDate a < parseDate b) ticks
      \<and> ticks \<noteq> [] \<and> hd ticks = hd uniqueDates"
proof -
  from getXTicks_ticks_core [of getMonth uniqueDates width mode interval]
  obtain ticks where t: "getXTicks getMonth uniqueDates width mode interval = Some ticks"
    "length ticks \<le> calculateMaxXTicks width mode"
    "subseq ticks uniqueDates"
    "first_elem ticks = first_elem uniqueDates"
    by blast
  have "sorted_wrt (\<lambda>a b. parseDate a < parseDate b) ticks"
    using t(3) assms(2) by (rule subseq_sorted_wrt)
  moreover have "ticks \<noteq> [] \<and> hd ticks = hd uniqueDates"
    using t(4) assms(1) by (cases ticks; cases uniqueDates) (simp_all add: first_elem_def)
  ultimately show ?thesis using t by blast
qed

theorem getXTicks_ticks_witness:
  "[0..<50] \<noteq> [] \<and> sorted_wrt (\<lambda>a b. real a < real b) [0..<50] \<and>
   (\<exists>ticks. getXTicks (\<lambda>d. (d div 30) mod 12) [0..<50] 1000 ''time-comparison'' ''day'' = Some ticks
      \<and> length ticks \<le> calculateMaxXTicks 1000 ''time-comparison''
      \<and> subseq ticks [0..<50]
      \<and> sorted_wrt (\<lambda>a b. real a < real b) ticks
      \<and> ticks \<noteq> [] \<and> hd ticks = hd [0..<50])"
proof -
  have 1: "[0..<50] \<noteq> []" by simp
  have 2: "sorted_wrt (\<lambda>a b. real a < real b) [0..<50]"
    using sorted_wrt_upt by (simp add: sorted_wrt_iff_nth_less del: upt_Suc)
  from getXTicks_ticks [OF 1 2] 1 2 show ?thesis by blast
qed

text \<open>
  Claim C4. \<open>getXTicks\<close> hands to its thinning steps the first date of each month
  (index 0 and every date whose month differs from the month of the date kept last)
  exactly when the interval is day and there are at least 63 dates, or the interval is
  week and there are at least 9; otherwise it hands them the dates as they are. In
  particular 70 daily dates, where two month starts are at least 28 days apart,
  collapse to at most 12 dates, which are returned without further thinning.
\<close>

theorem getXTicks_collapse:
  fixes uniqueDates :: "'d list"
  shows "getXTicks getMonth uniqueDates width mode interval =
     (let maxTicks = calculateMaxXTicks width mode;
          kept = (if (interval = ''day'' \<and> 63 \<le> length uniqueDates) \<or>
                     (interval = ''week'' \<and> 9 \<le> length uniqueDates)
                  then firstDatePerMonth_spec getMonth uniqueDates
                  else uniqueDates)
      in if length kept \<le> maxTicks then Some kept
         else Option.bind (calculateXTicksIncrementFactor kept maxTicks)
                (getXTicksFromIncrementFactor kept))
   \<and> (length uniqueDates = 70 \<and> monthStartsApart getMonth uniqueDates 28 \<longrightarrow>
        length (firstDatePerMonth_spec getMonth uniqueDates) \<le> 12 \<and>
        getXTicks getMonth uniqueDates width mode ''day'' =
          Some (firstDatePerMonth_spec getMonth uniqueDates))"
proof (intro conjI impI)
  have cond: "(dayTicksThreshold \<le> length uniqueDates \<and> interval = ''day'') \<or>
              (weekTicksThreshold \<le> length uniqueDates \<and> interval = ''week'')
         \<longleftrightarrow> (interval = ''day'' \<and> 63 \<le> length uniqueDates) \<or>
             (interval = ''week'' \<and> 9 \<le> length uniqueDates)" for interval
    by (auto simp: dayTicksThreshold_def weekTicksThreshold_def)
  show eq: "getXTicks getMonth uniqueDates width mode interval =
     (let maxTicks = calculateMaxXTicks width mode;
          kept = (if (interval = ''day'' \<and> 63 \<le> length uniqueDates) \<or>
                     (interval = ''week'' \<and> 9 \<le> length uniqueDates)
                  then firstDatePerMonth_spec getMonth uniqueDates
                  else uniqueDates)
      in if length kept \<le> maxTicks then Some kept
         else Option.bind (calculateXTicksIncrementFactor kept maxTicks)
                (getXTicksFromIncrementFactor kept))" for interval
    unfolding getXTicks_def cond getFirstDatePerMonth_eq_spec Let_def
    by (simp split: option.split)
  assume h: "length uniqueDates = 70 \<and> monthStartsApart getMonth uniqueDates 28"
  then have "length (getFirstDatePerMonth getMonth uniqueDates) \<le> (70 - 1) div 28 + 2"
    using length_getFirstDatePerMonth_le [of 28 getMonth uniqueDates] by simp
  then have le4: "length (firstDatePerMonth_spec getMonth uniqueDates) \<le> 4"
    by (simp add: getFirstDatePerMonth_eq_spec)
  then show "length (firstDatePerMonth_spec getMonth uniqueDates) \<le> 12" by simp
  have "length (firstDatePerMonth_spec getMonth uniqueDates) \<le> calculateMaxXTicks width mode"
    using le4 calculateMaxXTicks_ge_7 [of width mode] by simp
  then show "getXTicks getMonth uniqueDates width mode ''day'' =
          Some (firstDatePerMonth_spec getMonth uniqueDates)"
    unfolding eq [of "''day''"] using h by (simp add: Let_def)
qed

lemma month_change_multiple:
  fixes i :: nat
  assumes "1 \<le> i" "(i div 30) mod 12 \<noteq> ((i - 1) div 30) mod 12"
  shows "30 dvd i"
proof (rule ccontr)
  assume "\<not> 30 dvd i"
  then have r: "1 \<le> i mod 30" by (simp add: dvd_eq_mod_eq_0)
  have d: "30 * (i div 30) + i mod 30 = i" by (rule mult_div_mod_eq)
  have "i mod 30 < 30" by simp
  with r d have "30 * (i div 30) \<le> i - 1" "i - 1 < 30 * (i div 30) + 30"
    by linarith+
  then have "30 * (i div 30) \<le> i - 1" "i - 1 < 30 * Suc (i div 30)"
    by simp_all
  then have "(i - 1) div 30 = i div 30" by (rule div_nat_eqI)
  with assms(2) show False by simp
qed

lemma days_apart: "monthStartsApart (\<lambda>d. (d div 30) mod 12) [0..<70] 28"
  unfolding monthStartsApart_iff
proof (intro allI impI)
  fix j i :: nat
  assume a: "1 \<le> i \<and> i < j \<and> j < length [0..<70]
      \<and> ([0..<70] ! i div 30) mod 12 \<noteq> ([0..<70] ! (i - 1) div 30) mod 12
      \<and> ([0..<70] ! j div 30) mod 12 \<noteq> ([0..<70] ! (j - 1) div 30) mod 12"
  then have b: "1 \<le> i" "i < j" "j < 70" "1 \<le> j" by simp_all
  then have "[0..<70] ! i = i" "[0..<70] ! (i - 1) = i - 1" "[0..<70] ! j = j" "[0..<70] ! (j - 1) = j - 1"
    by (simp_all del: upt_Suc)
  with a have "(i div 30) mod 12 \<noteq> ((i - 1) div 30) mod 12"
     "(j div 30) mod 12 \<noteq> ((j - 1) div 30) mod 12"
    by (simp_all del: upt_Suc)
  then have "30 dvd i" "30 dvd j"
    using b by (simp_all add: month_change_multiple)
  then obtain p q where "i = 30 * p" "j = 30 * q" by (auto simp: dvd_def)
  with b(2) show "i + 28 \<le> j" by simp
qed

theorem getXTicks_collapse_witness:
  "length [0..<70] = 70 \<and> monthStartsApart (\<lambda>d. (d div 30) mod 12) [0..<70] 28 \<and>
   length (firstDatePerMonth_spec (\<lambda>d. (d div 30) mod 12) [0..<70]) \<le> 12 \<and>
   getXTicks (\<lambda>d. (d div 30) mod 12) [0..<70] 1000 ''time-comparison'' ''day'' =
     Some (firstDatePerMonth_spec (\<lambda>d. (d div 30) mod 12) [0..<70])"
proof -
  have 1: "length [0..<70] = 70" by simp
  note 2 = days_apart
  from getXTicks_collapse [of "\<lambda>d. (d div 30) mod 12" "[0..<70]" 1000 "''time-comparison''" "''day''"] 1 2
  show ?thesis by blast
qed

subsection \<open>The tooltip position\<close>

text \<open>
  Claim C8. In the position mode over, for all rectangles, every margin and every ratio,
  the x of the tooltip is the anchor
  \<open>elementLeft + elementWidth * ratio + margin - chartLeft\<close> when
  \<open>anchor + tooltipWidth + margin \<le> chartWidth\<close>, with no clamping, and otherwise
  \<open>max margin (elementLeft + elementWidth * (1 - ratio) - tooltipWidth - margin - chartLeft)\<close>.
\<close>

theorem calculateTooltipXPosition_over:
  assumes "tooltipPosition = ''over''"
  shows "calculateTooltipXPosition elementCoords chartCoords tooltipSize tooltipMargin
           elementWidthRatio tooltipPosition =
    (let anchor = rect_left elementCoords + rect_width elementCoords * elementWidthRatio
                    + tooltipMargin - rect_left chartCoords
     in if anchor + rect_width tooltipSize + tooltipMargin \<le> rect_width chartCoords
        then anchor
        else max tooltipMargin
               (rect_left elementCoords + rect_width elementCoords * (1 - elementWidthRatio)
                  - rect_width tooltipSize - tooltipMargin - rect_left chartCoords))"
  using assms by (simp add: calculateTooltipXPosition_def Let_def not_le)

theorem calculateTooltipXPosition_over_witness:
  "calculateTooltipXPosition
     \<lparr> rect_left = 100, rect_top = 50, rect_width = 20, rect_height = 80 \<rparr>
     \<lparr> rect_left = 0, rect_top = 0, rect_width = 1000, rect_height = 500 \<rparr>
     \<lparr> rect_left = 0, rect_top = 0, rect_width = 200, rect_height = 100 \<rparr>
     24 1 ''over'' = 144 \<and>
   calculateTooltipXPosition
     \<lparr> rect_left = 900, rect_top = 50, rect_width = 20, rect_height = 80 \<rparr>
     \<lparr> rect_left = 0, rect_top = 0, rect_width = 1000, rect_height = 500 \<rparr>
     \<lparr> rect_left = 0, rect_top = 0, rect_width = 200, rect_height = 100 \<rparr>
     24 1 ''over'' = 676"
  using calculateTooltipXPosition_over [of "''over''"
      "\<lparr> rect_left = 100, rect_top = 50, rect_width = 20, rect_height = 80 \<rparr>"
      "\<lparr> rect_left = 0, rect_top = 0, rect_width = 1000, rect_height = 500 \<rparr>"
      "\<lparr> rect_left = 0, rect_top = 0, rect_width = 200, rect_height = 100 \<rparr>" 24 1]
    calculateTooltipXPosition_over [of "''over''"
      "\<lparr> rect_left = 900, rect_top = 50, rect_width = 20, rect_height = 80 \<rparr>"
      "\<lparr> rect_left = 0, rect_top = 0, rect_width = 1000, rect_height = 500 \<rparr>"
      "\<lparr> rect_left = 0, rect_top = 0, rect_width = 200, rect_height = 100 \<rparr>" 24 1]
  by simp

text \<open>
  Claim C9. \<^verbatim>\<open>calculateTooltipPosition\<close> is private to the module; its four
  callers pass an element drawn inside the chart node together with that node, and the
  ratio 1, 0 or 0.5. For all such inputs, that is when the rectangle of the hovered
  element lies inside the chart rectangle (its left and right edge and its top) and the
  ratio is between 0 and 1, and when the tooltip with its two margins of 24 pixels fits
  into the chart rectangle, the position returned has \<open>x\<close> in \<open>[0, chartWidth]\<close>
  and \<open>y\<close> in \<open>[0, chartHeight]\<close>, in the mode over, in the mode below and in
  every other.
\<close>

theorem calculateTooltipPosition_in_chart:
  assumes tooltip: "0 \<le> rect_width tooltipSize" "0 \<le> rect_height tooltipSize"
    and fits: "rect_width tooltipSize + 2 * 24 \<le> rect_width chartCoords"
      "rect_height tooltipSize + 2 * 24 \<le> rect_height chartCoords"
    and inside_x: "rect_left chartCoords \<le> rect_left elementCoords" "0 \<le> rect_width elementCoords"
      "rect_left elementCoords + rect_width elementCoords
         \<le> rect_left chartCoords + rect_width chartCoords"
    and inside_y: "rect_top chartCoords \<le> rect_top elementCoords"
      "rect_top elementCoords \<le> rect_top chartCoords + rect_height chartCoords"
    and ratio: "0 \<le> elementWidthRatio" "elementWidthRatio \<le> 1"
  shows "0 \<le> pos_x (calculateTooltipPosition elementCoords chartCoords tooltipSize
                       tooltipPosition elementWidthRatio)
     \<and> pos_x (calculateTooltipPosition elementCoords chartCoords tooltipSize
                       tooltipPosition elementWidthRatio) \<le> rect_width chartCoords
     \<and> 0 \<le> pos_y (calculateTooltipPosition elementCoords chartCoords tooltipSize
                       tooltipPosition elementWidthRatio)
     \<and> pos_y (calculateTooltipPosition elementCoords chartCoords tooltipSize
                       tooltipPosition elementWidthRatio) \<le> rect_height chartCoords"
proof -
  have w1: "0 \<le> rect_width elementCoords * elementWidthRatio"
    using inside_x(2) ratio(1) by simp
  have w2: "rect_width elementCoords * (1 - elementWidthRatio) \<le> rect_width elementCoords"
    using inside_x(2) ratio(1) by (simp add: mult_left_le)
  have x: "0 \<le> calculateTooltipXPosition elementCoords chartCoords tooltipSize 24
                  (if tooltipPosition = ''below'' then 0 else elementWidthRatio) tooltipPosition
      \<and> calculateTooltipXPosition elementCoords chartCoords tooltipSize 24
                  (if tooltipPosition = ''below'' then 0 else elementWidthRatio) tooltipPosition
          \<le> rect_width chartCoords"
    unfolding calculateTooltipXPosition_def Let_def
    using tooltip fits inside_x w1 w2 by (auto simp: algebra_simps)
  have y: "0 \<le> calculateTooltipYPosition elementCoords chartCoords tooltipSize 24 tooltipPosition
      \<and> calculateTooltipYPosition elementCoords chartCoords tooltipSize 24 tooltipPosition
          \<le> rect_height chartCoords"
    unfolding calculateTooltipYPosition_def Let_def
    using tooltip fits inside_y by auto
  from x y show ?thesis
    by (simp add: calculateTooltipPosition_def Let_def)
qed

theorem calculateTooltipPosition_in_chart_witness:
  "(0::real) \<le> 200 \<and> (200::real) + 2 * 24 \<le> 1000 \<and> (100::real) + 2 * 24 \<le> 500 \<and>
   pos_x (calculateTooltipPosition
     \<lparr> rect_left = 900, rect_top = 450, rect_width = 20, rect_height = 80 \<rparr>
     \<lparr> rect_left = 0, rect_top = 0, rect_width = 1000, rect_height = 500 \<rparr>
     \<lparr> rect_left = 0, rect_top = 0, rect_width = 200, rect_height = 100 \<rparr>
     ''over'' 1) \<in> {0..1000} \<and>
   pos_y (calculateTooltipPosition
     \<lparr> rect_left = 900, rect_top = 450, rect_width = 20, rect_height = 80 \<rparr>
     \<lparr> rect_left = 0, rect_top = 0, rect_width = 1000, rect_height = 500 \<rparr>
     \<lparr> rect_left = 0, rect_top = 0, rect_width = 200, rect_height = 100 \<rparr>
     ''over'' 1) \<in> {0..500}"
  using calculateTooltipPosition_in_chart [of
      "\<lparr> rect_left = 0, rect_top = 0, rect_width = 200, rect_height = 100 \<rparr>"
      "\<lparr> rect_left = 0, rect_top = 0, rect_width = 1000, rect_height = 500 \<rparr>"
      "\<lparr> rect_left = 900, rect_top = 450, rect_width = 20, rect_height = 80 \<rparr>"
      1 "''over''"]
  by simp

subsection \<open>getDateSpaces\<close>









subsection \<open>getYMax\<close>





lemma getYMax_exponent_nonpositive:
  assumes "yMax \<le> 0"
  shows "ToInt32 (log10_plus_1 computed yMax) - 2 = - 2"
  using assms by (simp add: log10_plus_1_def)


lemma maxRawValue_single:
  "maxRawValue [\<lparr> ls_key = k, ls_values = [\<lparr> lv_date = d, lv_value = v \<rparr>] \<rparr>] = Some v"
  by (simp add: maxRawValue_def d3Max_def)







text \<open>
  Claim C7, as amended. For every lineData whose maximum raw value \<open>m\<close> is zero or
  negative, \<open>getYMax\<close> does not return NaN: the exponent is \<open>-2\<close>, the step is
  \<open>0.03\<close> and the result is \<open>ceiling (4/3 * m / 0.03) * 0.03\<close>, a number that is
  zero or negative.
\<close>

theorem getYMax_nonpositive:
  fixes lineData :: "'d lineSeries list"
  assumes "maxRawValue lineData = Some m" "m \<le> 0"
  shows "getYMax computed lineData = Finite (of_int \<lceil>4 / 3 * m / (3 / 100)\<rceil> * (3 / 100))
     \<and> getYMax computed lineData \<noteq> NaN
     \<and> of_int \<lceil>4 / 3 * m / (3 / 100)\<rceil> * (3 / 100) \<le> (0 :: real)"
proof -
  have y: "4 / 3 * m \<le> 0" using assms(2) by simp
  have r: "getYMax computed lineData = Finite (of_int \<lceil>4 / 3 * m / (3 / 100)\<rceil> * (3 / 100))"
    unfolding getYMax_def assms(1) option.case Let_def getYMax_exponent_nonpositive [OF y]
    by (simp add: power_int_minus)
  have "4 / 3 * m / (3 / 100) \<le> 0" using assms(2) by simp
  then have "\<lceil>4 / 3 * m / (3 / 100)\<rceil> \<le> 0" by (simp add: ceiling_le_iff)
  then have "of_int \<lceil>4 / 3 * m / (3 / 100)\<rceil> * (3 / 100) \<le> (0 :: real)"
    by (simp add: mult_le_0_iff)
  with r show ?thesis by simp
qed

theorem getYMax_nonpositive_witness:
  "maxRawValue [\<lparr> ls_key = ''a'', ls_values = [\<lparr> lv_date = 0 :: nat, lv_value = - 3 \<rparr>] \<rparr>] = Some (- 3)
   \<and> getYMax (\<lambda>y. log 10 y + 1)
         [\<lparr> ls_key = ''a'', ls_values = [\<lparr> lv_date = 0 :: nat, lv_value = - 3 \<rparr>] \<rparr>]
       = Finite (- 399 / 100)"
proof -
  let ?ld = "[\<lparr> ls_key = ''a'', ls_values = [\<lparr> lv_date = 0 :: nat, lv_value = - 3 \<rparr>] \<rparr>]"
  have 1: "maxRawValue ?ld = Some (- 3)" by (rule maxRawValue_single)
  have 2: "(- 3 :: real) \<le> 0" by simp
  have "\<lceil>4 / 3 * (- 3 :: real) / (3 / 100)\<rceil> = - 133"
    by (intro ceiling_unique) simp_all
  with getYMax_nonpositive [OF 1 2, of "\<lambda>y. log 10 y + 1"]
  have "getYMax (\<lambda>y. log 10 y + 1) ?ld = Finite (- 399 / 100)"
    by simp
  with 1 show ?thesis by simp
qed

text \<open>
  Claim C7 as stated, a result that is neither NaN nor non-positive, fails for a
  maximum of 0: \<^verbatim>\<open>Math.log( 0 )\<close> is \<open>-Infinity\<close>, which \<^verbatim>\<open>| 0\<close> turns
  into 0, and the result is \<open>ceiling (0 / 0.03) * 0.03 = 0\<close>.
\<close>

theorem getYMax_zero_counterexample:
  "getYMax (\<lambda>y. log 10 y + 1)
     [\<lparr> ls_key = ''a'', ls_values = [\<lparr> lv_date = 0 :: nat, lv_value = 0 \<rparr>] \<rparr>] = Finite 0"
  unfolding getYMax_def maxRawValue_single option.case Let_def
  by (simp add: log10_plus_1_def)

end
